theory Spec2Isabelle
  imports Main
begin

section \<open>Values in memory and on the wire\<close>

text \<open>
  The development follows the class \<open>BaseProtocol\<close> of \<open>obj.js\<close> (the revision with
  \<open>plainObject\<close>, \<open>WeakRef\<close> and \<open>getOrCreateIDForLocalObject\<close>).

  A wire value is what a payload holds: JSON, and \<open>undefined\<close> where a field is absent.
  The entries of an object are kept in enumeration order. Numbers are opaque to the
  marshaller and are kept as integers.
\<close>

type_synonym addr = nat

datatype wire =
    WUndef
  | WNull
  | WBool bool
  | WNum int
  | WStr string
  | WArr "wire list"
  | WObj "(string \<times> wire) list"

text \<open>
  A value in memory: a primitive, an array (held by value, the identity of arrays plays
  no part in marshalling) or a reference to an object or function of the heap.
\<close>

datatype jsval =
    VUndef
  | VNull
  | VBool bool
  | VNum int
  | VStr string
  | VArr "jsval list"
  | VRef addr

text \<open>
  Own properties with their descriptors. A getter is taken to be pure: \<open>Accessor (Some v) st\<close>
  is an accessor whose getter returns \<open>v\<close>, \<open>Accessor None st\<close> an accessor without a getter;
  \<open>st\<close> says whether there is a setter.
\<close>

datatype descriptor = Data jsval | Accessor "jsval option" bool

datatype property = Prop (pname: string) (penum: bool) (pdesc: descriptor)

text \<open>
  One prototype object of a chain: its own \<open>Symbol.toStringTag\<close>, the name of the function
  under its own \<open>constructor\<close> property, whether it has an own \<open>Symbol.iterator\<close>, and its
  own string-keyed properties in the order of \<open>Object.getOwnPropertyNames\<close>.
\<close>

record protoobj =
  p_tag :: "string option"
  p_ctor :: "string option"
  p_iterator :: bool
  p_members :: "property list"

text \<open>
  Heap objects. An ordinary object carries its prototype chain, nearest prototype first
  (for an instance of \<open>class Car extends Movable\<close>: \<open>Car.prototype\<close>, \<open>Movable.prototype\<close>,
  \<open>Object.prototype\<close>), and its own properties. A stub is what \<open>makeStub\<close> builds: an
  object whose prototype is the stub prototype registered for the class, with the ID the
  peer gave and the properties assigned since. A callable stub is the function that
  \<open>makeCallable\<close> returns.
\<close>

datatype jsobj =
    Object "protoobj list" "property list"
  | Function
  | Stub wire wire "(string \<times> jsval) list"
  | Callable wire

datatype lref = Strong addr | Weak addr

text \<open>Errors: the three assertions of the registry and of \<open>makeStub\<close> ("Remote class ... is
  unknown here", "Remote object ID ... already exists", "Local object with ID ... is unknown
  here"), a \<open>TypeError\<close> of the host, a rejection by the peer, and two cases that lie outside
  the values modelled: a stub whose \<open>id\<close> was overwritten by an object, and a reference to a
  collected object, which the host never yields.\<close>

datatype error =
    UnknownRemoteClass wire
  | DuplicateRemote wire
  | UnknownLocal wire
  | TypeError
  | Rejected string
  | NotWireValue
  | Collected addr

text \<open>
  The state of one peer: the heap with its allocation counter; the names of the remote
  classes for which a stub prototype is registered (the keys of \<open>_remoteClasses\<close>); the
  weak references to stubs by ID (\<open>_remoteObjects\<close>); the local registry by ID, strong or
  weak (\<open>_localIDsToObjects\<close>) and by object (\<open>_localObjectsToIDs\<close>); the class names already
  described to the peer (\<open>_localClasses\<close>); the exchanges completed with the peer; and the
  values that \<open>Math.random() * 1e20\<close> will yield.
\<close>

record state =
  heap :: "addr \<rightharpoonup> jsobj"
  nextAddr :: addr
  remoteClasses :: "wire set"
  remoteObjects :: "wire \<rightharpoonup> addr"
  localIDsToObjects :: "wire \<rightharpoonup> lref"
  localObjectsToIDs :: "addr \<rightharpoonup> string"
  localClasses :: "string set"
  trace :: "(string \<times> wire) list"
  random :: "nat list"

type_synonym 'a result = "(error + 'a) \<times> state"

section \<open>Host operations\<close>

text \<open>Truthiness of a value, as \<open>if (x)\<close> and \<open>x && y\<close> test it.\<close>

fun truthy :: "wire \<Rightarrow> bool" where
  "truthy WUndef = False"
| "truthy WNull = False"
| "truthy (WBool b) = b"
| "truthy (WNum n) = (n \<noteq> 0)"
| "truthy (WStr s) = (s \<noteq> [])"
| "truthy (WArr xs) = True"
| "truthy (WObj kvs) = True"

text \<open>Reading a field of a payload object: \<open>obj.name\<close> is \<open>undefined\<close> when absent.\<close>

definition get_field :: "(string \<times> wire) list \<Rightarrow> string \<Rightarrow> wire" where
  "get_field kvs k = (case map_of kvs k of None \<Rightarrow> WUndef | Some w \<Rightarrow> w)"

text \<open>
  A \<open>Map\<close> compares keys by value when they are primitives and by identity when they are
  arrays or objects. A key that arrives in a payload is a freshly parsed value, so an
  array or object key is never found and an entry stored under one is never read.
\<close>

fun primitive :: "wire \<Rightarrow> bool" where
  "primitive (WArr xs) = False"
| "primitive (WObj kvs) = False"
| "primitive w = True"

definition mapGet :: "(wire \<rightharpoonup> 'a) \<Rightarrow> wire \<Rightarrow> 'a option" where
  "mapGet m k = (if primitive k then m k else None)"

definition mapSet :: "(wire \<rightharpoonup> 'a) \<Rightarrow> wire \<Rightarrow> 'a \<Rightarrow> (wire \<rightharpoonup> 'a)" where
  "mapSet m k v = (if primitive k then m(k \<mapsto> v) else m)"

definition mapHas :: "wire set \<Rightarrow> wire \<Rightarrow> bool" where
  "mapHas m k = (primitive k \<and> k \<in> m)"

definition mapDelete :: "(wire \<rightharpoonup> 'a) \<Rightarrow> wire \<Rightarrow> (wire \<rightharpoonup> 'a)" where
  "mapDelete m k = (if primitive k then m(k := None) else m)"

text \<open>Decimal digits of a natural number: \<open>toFixed()\<close> of a non-negative integral number,
  and the index names that \<open>for (name in array)\<close> yields.\<close>

fun toFixed :: "nat \<Rightarrow> string" where
  "toFixed n = (if n < 10 then [''0123456789'' ! n]
                else toFixed (n div 10) @ [''0123456789'' ! (n mod 10)])"

declare toFixed.simps [simp del]

text \<open>\<open>String(x)\<close> for payload values, as the loose comparison \<open>==\<close> of an array with a
  string applies it: \<open>Array.prototype.join\<close> with commas, \<open>null\<close> and \<open>undefined\<close> elements
  printing as the empty string.\<close>

fun joinWith :: "string list \<Rightarrow> string" where
  "joinWith [] = []"
| "joinWith [x] = x"
| "joinWith (x # y # ys) = x @ '','' @ joinWith (y # ys)"

fun jsToString :: "wire \<Rightarrow> string"
and elementToString :: "wire \<Rightarrow> string" where
  "jsToString WUndef = ''undefined''"
| "jsToString WNull = ''null''"
| "jsToString (WBool b) = (if b then ''true'' else ''false'')"
| "jsToString (WNum n) = (if n < 0 then ''-'' @ toFixed (nat (- n)) else toFixed (nat n))"
| "jsToString (WStr s) = s"
| "jsToString (WArr xs) = joinWith (map elementToString xs)"
| "jsToString (WObj kvs) = ''[object Object]''"
| "elementToString WUndef = []"
| "elementToString WNull = []"
| "elementToString (WBool b) = jsToString (WBool b)"
| "elementToString (WNum n) = jsToString (WNum n)"
| "elementToString (WStr s) = s"
| "elementToString (WArr xs) = joinWith (map elementToString xs)"
| "elementToString (WObj kvs) = ''[object Object]''"

text \<open>\<open>obj.className == "Function"\<close>: a string is compared as it is, an array or object
  through its string form; a number, a boolean, \<open>null\<close> and \<open>undefined\<close> never equal the
  string \<open>"Function"\<close>.\<close>

fun isFunctionName :: "wire \<Rightarrow> bool" where
  "isFunctionName (WStr s) = (s = ''Function'')"
| "isFunctionName (WArr xs) = (jsToString (WArr xs) = ''Function'')"
| "isFunctionName w = False"

text \<open>\<open>for (name in x)\<close> over a payload value: the entries of an object, the indices of an
  array or string, nothing for any other value.\<close>

fun forin_entries :: "wire \<Rightarrow> (string \<times> wire) list" where
  "forin_entries (WObj kvs) = kvs"
| "forin_entries (WArr xs) = zip (map toFixed [0..<length xs]) xs"
| "forin_entries (WStr s) = zip (map toFixed [0..<length s]) (map (\<lambda>c. WStr [c]) s)"
| "forin_entries w = []"

text \<open>Modelled from the spec: \<open>util.js\<close> with \<open>assert\<close> is not among the sources. The
  operations of the spec fail with an error where the code asserts, so \<open>assert(test, message)\<close>
  raises the error of that message when \<open>test\<close> is falsy.\<close>

definition assert :: "bool \<Rightarrow> error \<Rightarrow> state \<Rightarrow> unit result" where
  "assert test e s = (if test then (Inr (), s) else (Inl e, s))"

text \<open>\<open>WeakRef.deref()\<close>: the object while it is in the heap, \<open>undefined\<close> once collected.\<close>

definition deref :: "state \<Rightarrow> addr \<Rightarrow> addr option" where
  "deref s a = (if heap s a = None then None else Some a)"

text \<open>A new object gets the next address; addresses are never used again.\<close>

definition alloc :: "jsobj \<Rightarrow> state \<Rightarrow> addr \<times> state" where
  "alloc obj s = (nextAddr s, s\<lparr>heap := (heap s)(nextAddr s \<mapsto> obj), nextAddr := Suc (nextAddr s)\<rparr>)"

text \<open>Assignment \<open>obj[name] = v\<close> to a stub or to a fresh object: the own data property is
  overwritten in place or added at the end.\<close>

fun assoc_set :: "(string \<times> 'a) list \<Rightarrow> string \<Rightarrow> 'a \<Rightarrow> (string \<times> 'a) list" where
  "assoc_set [] k v = [(k, v)]"
| "assoc_set ((k', v') # kvs) k v = (if k' = k then (k, v) # kvs else (k', v') # assoc_set kvs k v)"

fun own_set :: "property list \<Rightarrow> string \<Rightarrow> jsval \<Rightarrow> property list" where
  "own_set [] k v = [Prop k True (Data v)]"
| "own_set (p # ps) k v = (if pname p = k then Prop k (penum p) (Data v) # ps else p # own_set ps k v)"

definition setProp :: "addr \<Rightarrow> string \<Rightarrow> jsval \<Rightarrow> state \<Rightarrow> state" where
  "setProp a k v s =
     (case heap s a of
        Some (Stub c i ps) \<Rightarrow> s\<lparr>heap := (heap s)(a \<mapsto> Stub c i (assoc_set ps k v))\<rparr>
      | Some (Object ch own) \<Rightarrow> s\<lparr>heap := (heap s)(a \<mapsto> Object ch (own_set own k v))\<rparr>
      | _ \<Rightarrow> s)"

section \<open>Identity registry\<close>

text \<open>\<open>generateNewObjID\<close>: draw until the ID is not in use. \<open>random s\<close> holds the values
  \<open>Math.random() * 1e20\<close> still to come; the loop has not returned when they run out.\<close>

fun generateNewObjID_loop :: "(wire \<rightharpoonup> lref) \<Rightarrow> nat list \<Rightarrow> (string \<times> nat list) option" where
  "generateNewObjID_loop m [] = None"
| "generateNewObjID_loop m (r # rs) =
     (if m (WStr (toFixed r)) \<noteq> None then generateNewObjID_loop m rs else Some (toFixed r, rs))"

definition generateNewObjID :: "state \<Rightarrow> (string \<times> state) option" where
  "generateNewObjID s =
     (case generateNewObjID_loop (localIDsToObjects s) (random s) of
        None \<Rightarrow> None
      | Some (i, rs) \<Rightarrow> Some (i, s\<lparr>random := rs\<rparr>))"

definition getRemoteObject :: "wire \<Rightarrow> state \<Rightarrow> addr option" where
  "getRemoteObject i s =
     (case mapGet (remoteObjects s) i of None \<Rightarrow> None | Some a \<Rightarrow> deref s a)"

definition getLocalObject :: "wire \<Rightarrow> state \<Rightarrow> jsval result" where
  "getLocalObject i s =
     (case mapGet (localIDsToObjects s) i of
        None \<Rightarrow> (Inl (UnknownLocal i), s)
      | Some (Strong a) \<Rightarrow> (Inr (VRef a), s)
      | Some (Weak a) \<Rightarrow>
          (case deref s a of
             None \<Rightarrow> (Inl (UnknownLocal i), s)
           | Some b \<Rightarrow> (Inr (VRef b), s\<lparr>localIDsToObjects := mapSet (localIDsToObjects s) i (Strong b)\<rparr>)))"

definition getOrCreateIDForLocalObject :: "addr \<Rightarrow> state \<Rightarrow> (string \<times> state) option" where
  "getOrCreateIDForLocalObject a s =
     (case (case localObjectsToIDs s a of None \<Rightarrow> None | Some i \<Rightarrow> if i \<noteq> [] then Some (i, s) else None) of
        Some (i, s1) \<Rightarrow>
          Some (i, s1\<lparr>localIDsToObjects := mapSet (localIDsToObjects s1) (WStr i) (Strong a)\<rparr>)
      | None \<Rightarrow>
          (case generateNewObjID s of
             None \<Rightarrow> None
           | Some (i, s1) \<Rightarrow>
               Some (i, s1\<lparr>localObjectsToIDs := (localObjectsToIDs s1)(a \<mapsto> i),
                          localIDsToObjects := mapSet (localIDsToObjects s1) (WStr i) (Strong a)\<rparr>)))"

definition addRemoteObject :: "wire \<Rightarrow> addr \<Rightarrow> state \<Rightarrow> unit result" where
  "addRemoteObject i a s =
     (case assert (getRemoteObject i s = None) (DuplicateRemote i) s of
        (Inl e, s1) \<Rightarrow> (Inl e, s1)
      | (Inr u, s1) \<Rightarrow> (Inr (), s1\<lparr>remoteObjects := mapSet (remoteObjects s1) i a\<rparr>))"


section \<open>Incoming values\<close>

text \<open>\<open>Object.prototype\<close>, the prototype of a fresh \<open>{}\<close>. Its builtin members are not
  enumerable and the marshaller never lists them.\<close>

definition objectPrototype :: protoobj where
  "objectPrototype = \<lparr>p_tag = None, p_ctor = Some ''Object'', p_iterator = False, p_members = []\<rparr>"

text \<open>\<open>makeCallable(id)\<close> returns a new function that forwards its call to the peer.\<close>

definition makeCallable :: "wire \<Rightarrow> state \<Rightarrow> addr \<times> state" where
  "makeCallable i s = alloc (Callable i) s"

text \<open>A size of payload values, for the termination of the incoming marshaller: the
  entries that \<open>for (name in x)\<close> yields are never larger than \<open>x\<close>.\<close>

fun wsize :: "wire \<Rightarrow> nat" where
  "wsize (WStr s) = max 1 (length s)"
| "wsize (WArr xs) = 1 + sum_list (map wsize xs)"
| "wsize (WObj kvs) = 1 + sum_list (map (\<lambda>kv. wsize (snd kv)) kvs)"
| "wsize w = 1"

definition fsize :: "(string \<times> wire) list \<Rightarrow> nat" where
  "fsize kvs = sum_list (map (\<lambda>kv. wsize (snd kv)) kvs)"

lemma wsize_pos: "0 < wsize w"
  by (cases w) auto

lemma fsize_zip_le: "fsize (zip ks xs) \<le> sum_list (map wsize xs)"
proof (induction xs arbitrary: ks)
  case Nil
  then show ?case by (simp add: fsize_def)
next
  case (Cons x xs)
  then show ?case by (cases ks) (auto simp: fsize_def intro: le_SucI trans_le_add2)
qed

lemma fsize_forin: "fsize (forin_entries w) \<le> wsize w"
proof (cases w)
  case (WStr s)
  have "fsize (zip (map toFixed [0..<length s]) (map (\<lambda>c. WStr [c]) s)) \<le> sum_list (map wsize (map (\<lambda>c. WStr [c]) s))"
    by (rule fsize_zip_le)
  also have "\<dots> = length s" by (induction s) auto
  finally show ?thesis using WStr by simp
next
  case (WArr xs)
  then show ?thesis using fsize_zip_le [of "map toFixed [0..<length xs]" xs] by simp
qed (auto simp: fsize_def)

lemma wsize_map_of: "map_of kvs k = Some w \<Longrightarrow> wsize w \<le> fsize kvs"
  by (induction kvs) (auto simp: fsize_def split: if_splits)

lemma fsize_forin_field: "fsize (forin_entries (get_field kvs k)) \<le> fsize kvs"
proof (cases "map_of kvs k")
  case None
  then show ?thesis by (simp add: get_field_def fsize_def)
next
  case (Some w)
  then show ?thesis
    using fsize_forin [of w] wsize_map_of [of kvs k w] by (simp add: get_field_def)
qed

lemma forin_field_sum:
  "3 * (\<Sum>kv\<leftarrow>forin_entries (get_field kvs k). wsize (snd kv)) < Suc (3 * (\<Sum>kv\<leftarrow>kvs. wsize (snd kv)))"
  using fsize_forin_field [of kvs k] by (simp add: fsize_def)

text \<open>
  \<open>mapIncomingObjects\<close>, with \<open>makeStub\<close> and the two loops it runs: over the elements of an
  array, and over the properties assigned to a stub or to a fresh plain object
  (\<open>target[propName] = mapIncomingObjects(...)\<close>). An exception leaves the state as it is at
  the throw.
\<close>

function mapIncomingObjects :: "wire \<Rightarrow> state \<Rightarrow> jsval result"
  and mapIncomingArray :: "wire list \<Rightarrow> state \<Rightarrow> (jsval list) result"
  and makeStub :: "(string \<times> wire) list \<Rightarrow> state \<Rightarrow> jsval result"
  and assignFields :: "addr \<Rightarrow> (string \<times> wire) list \<Rightarrow> state \<Rightarrow> unit result"
where
  "mapIncomingObjects WUndef s = (Inr VUndef, s)"
| "mapIncomingObjects WNull s = (Inr VNull, s)"
| "mapIncomingObjects (WBool b) s = (Inr (VBool b), s)"
| "mapIncomingObjects (WNum n) s = (Inr (VNum n), s)"
| "mapIncomingObjects (WStr x) s = (Inr (VStr x), s)"
| "mapIncomingObjects (WArr xs) s =
     (case mapIncomingArray xs s of
        (Inl e, s1) \<Rightarrow> (Inl e, s1)
      | (Inr vs, s1) \<Rightarrow> (Inr (VArr vs), s1))"
| "mapIncomingObjects (WObj obj) s =
     (if truthy (get_field obj ''idLocal'') then
        (case getRemoteObject (get_field obj ''idLocal'') s of
           Some stub \<Rightarrow> (Inr (VRef stub), s)
         | None \<Rightarrow>
             if isFunctionName (get_field obj ''className'') then
               (case makeCallable (get_field obj ''idLocal'') s of
                  (stub, s1) \<Rightarrow>
                    (case addRemoteObject (get_field obj ''idLocal'') stub s1 of
                       (Inl e, s2) \<Rightarrow> (Inl e, s2)
                     | (Inr u, s2) \<Rightarrow> (Inr (VRef stub), s2)))
             else makeStub obj s)
      else if truthy (get_field obj ''idRemote'') then
        getLocalObject (get_field obj ''idRemote'') s
      else if truthy (get_field obj ''plainObject'') then
        (case alloc (Object [objectPrototype] []) s of
           (plainObject, s1) \<Rightarrow>
             (case assignFields plainObject (forin_entries (get_field obj ''plainObject'')) s1 of
                (Inl e, s2) \<Rightarrow> (Inl e, s2)
              | (Inr u, s2) \<Rightarrow> (Inr (VRef plainObject), s2)))
      else (Inr VUndef, s))"
| "mapIncomingArray [] s = (Inr [], s)"
| "mapIncomingArray (x # xs) s =
     (case mapIncomingObjects x s of
        (Inl e, s1) \<Rightarrow> (Inl e, s1)
      | (Inr v, s1) \<Rightarrow>
          (case mapIncomingArray xs s1 of
             (Inl e, s2) \<Rightarrow> (Inl e, s2)
           | (Inr vs, s2) \<Rightarrow> (Inr (v # vs), s2)))"
| "makeStub objDescrJSON s =
     (case assert (mapHas (remoteClasses s) (get_field objDescrJSON ''className''))
             (UnknownRemoteClass (get_field objDescrJSON ''className'')) s of
        (Inl e, s0) \<Rightarrow> (Inl e, s0)
      | (Inr u, s0) \<Rightarrow>
          (case alloc (Stub (get_field objDescrJSON ''className'') (get_field objDescrJSON ''idLocal'') []) s0 of
             (stub, s1) \<Rightarrow>
               (case addRemoteObject (get_field objDescrJSON ''idLocal'') stub s1 of
                  (Inl e, s2) \<Rightarrow> (Inl e, s2)
                | (Inr u, s2) \<Rightarrow>
                    (case assignFields stub (forin_entries (get_field objDescrJSON ''properties'')) s2 of
                       (Inl e, s3) \<Rightarrow> (Inl e, s3)
                     | (Inr u, s3) \<Rightarrow> (Inr (VRef stub), s3)))))"
| "assignFields target [] s = (Inr (), s)"
| "assignFields target ((propName, w) # rest) s =
     (case mapIncomingObjects w s of
        (Inl e, s1) \<Rightarrow> (Inl e, s1)
      | (Inr v, s1) \<Rightarrow> assignFields target rest (setProp target propName v s1))"
  by pat_completeness auto

termination
  apply (relation "measure (\<lambda>x. case x of
           Inl (Inl (w, s)) \<Rightarrow> 3 * wsize w
         | Inl (Inr (xs, s)) \<Rightarrow> 3 * sum_list (map wsize xs) + 1
         | Inr (Inl (kvs, s)) \<Rightarrow> 3 * fsize kvs + 2
         | Inr (Inr (a, es, s)) \<Rightarrow> 3 * fsize es + 1)")
  apply (simp_all add: wsize_pos fsize_def forin_field_sum less_SucI)
  done


section \<open>Transport and collector\<close>

text \<open>Modelled from the spec: the transport is not among the sources (\<open>callRemote\<close> of
  \<open>BaseProtocol\<close> only throws "Implement this"). \<open>callRemote(method, payload)\<close> resolves
  with the reply or rejects with the peer's error. The peer is a parameter: it answers
  a call given the exchanges completed so far. \<open>trace s\<close> lists the completed exchanges,
  oldest first.\<close>

type_synonym peer = "(string \<times> wire) list \<Rightarrow> string \<Rightarrow> wire \<Rightarrow> error + wire"

definition callRemote :: "peer \<Rightarrow> string \<Rightarrow> wire \<Rightarrow> state \<Rightarrow> wire result" where
  "callRemote peer method payload s =
     (case peer (trace s) method payload of
        Inl e \<Rightarrow> (Inl e, s)
      | Inr reply \<Rightarrow> (Inr reply, s\<lparr>trace := trace s @ [(method, payload)]\<rparr>))"


definition localObjectFinalizer :: "wire \<Rightarrow> state \<Rightarrow> state" where
  "localObjectFinalizer i s = s\<lparr>localIDsToObjects := mapDelete (localIDsToObjects s) i\<rparr>"






section \<open>Outgoing values\<close>

text \<open>
  \<open>getClassName(obj)\<close> reads the prototype of \<open>obj\<close>: its \<open>Symbol.toStringTag\<close> when truthy,
  else the name of its \<open>constructor\<close>, else \<open>"Object"\<close>; both are looked up along the chain.
  An object without prototype is an \<open>"Object"\<close>. \<open>None\<close> is the \<open>TypeError\<close> of reading
  \<open>.name\<close> when no prototype of the chain has a constructor. The argument is the chain of
  the object, so \<open>getClassName(proto)\<close> for its first prototype is \<open>getClassName\<close> of the
  rest of the chain.
\<close>

fun lookupTag :: "protoobj list \<Rightarrow> string option" where
  "lookupTag [] = None"
| "lookupTag (p # ps) = (case p_tag p of Some t \<Rightarrow> Some t | None \<Rightarrow> lookupTag ps)"

fun lookupConstructor :: "protoobj list \<Rightarrow> string option" where
  "lookupConstructor [] = None"
| "lookupConstructor (p # ps) = (case p_ctor p of Some n \<Rightarrow> Some n | None \<Rightarrow> lookupConstructor ps)"

definition getClassName :: "protoobj list \<Rightarrow> string option" where
  "getClassName chain =
     (if chain = [] then Some ''Object''
      else if (case lookupTag chain of Some t \<Rightarrow> t \<noteq> [] | None \<Rightarrow> False) then lookupTag chain
      else (case lookupConstructor chain of
              None \<Rightarrow> None
            | Some n \<Rightarrow> if n \<noteq> [] then Some n else Some ''Object''))"

text \<open>\<open>for (name in obj)\<close> over an object of the heap: the enumerable properties, own ones
  first, then those of each prototype that no nearer level has under the same name; and
  the read \<open>obj[name]\<close>, which takes the nearest property of that name.\<close>

fun forin_names :: "property list list \<Rightarrow> string list \<Rightarrow> string list" where
  "forin_names [] seen = []"
| "forin_names (level # levels) seen =
     map pname (filter (\<lambda>p. penum p \<and> pname p \<notin> set seen) level)
     @ forin_names levels (seen @ map pname level)"

fun js_get :: "property list \<Rightarrow> string \<Rightarrow> jsval" where
  "js_get [] k = VUndef"
| "js_get (p # ps) k =
     (if pname p = k then
        (case pdesc p of
           Data v \<Rightarrow> v
         | Accessor None st \<Rightarrow> VUndef
         | Accessor (Some v) st \<Rightarrow> v)
      else js_get ps k)"

definition levels :: "protoobj list \<Rightarrow> property list \<Rightarrow> property list list" where
  "levels chain own = own # map p_members chain"

text \<open>\<open>typeof(v) == "function"\<close>.\<close>

definition isFunction :: "state \<Rightarrow> jsval \<Rightarrow> bool" where
  "isFunction s v =
     (case v of
        VRef a \<Rightarrow> (case heap s a of Some Function \<Rightarrow> True | Some (Callable i) \<Rightarrow> True | _ \<Rightarrow> False)
      | _ \<Rightarrow> False)"

text \<open>A value placed in a payload as it is (the \<open>id\<close> property of a stub): a primitive or an
  array of such is the same payload value, a reference to a heap object is none.\<close>

fun to_wire :: "jsval \<Rightarrow> wire option"
and to_wires :: "jsval list \<Rightarrow> wire list option" where
  "to_wire VUndef = Some WUndef"
| "to_wire VNull = Some WNull"
| "to_wire (VBool b) = Some (WBool b)"
| "to_wire (VNum n) = Some (WNum n)"
| "to_wire (VStr x) = Some (WStr x)"
| "to_wire (VArr xs) = (case to_wires xs of None \<Rightarrow> None | Some ws \<Rightarrow> Some (WArr ws))"
| "to_wire (VRef a) = None"
| "to_wires [] = Some []"
| "to_wires (x # xs) =
     (case to_wire x of
        None \<Rightarrow> None
      | Some w \<Rightarrow> (case to_wires xs of None \<Rightarrow> None | Some ws \<Rightarrow> Some (w # ws)))"

text \<open>The filter of \<open>createObjectDescription\<close> over the own properties of the object: the
  name does not start with an underscore, the descriptor has no getter and its value is
  not a function.\<close>

definition startsWithUnderscore :: "string \<Rightarrow> bool" where
  "startsWithUnderscore name = (case name of [] \<Rightarrow> False | c # cs \<Rightarrow> c = CHR ''_'')"

definition describedProperty :: "state \<Rightarrow> property \<Rightarrow> bool" where
  "describedProperty s p =
     (\<not> startsWithUnderscore (pname p) \<and>
      (case pdesc p of
         Data v \<Rightarrow> \<not> isFunction s v
       | Accessor None st \<Rightarrow> True
       | Accessor (Some v) st \<Rightarrow> False))"

text \<open>
  The class description that \<open>sendClassDescription\<close> builds from the own properties of the
  prototype. \<open>Symbol.asyncInterator\<close> (as the source spells it) is \<open>undefined\<close>, so the first
  test asks for a property named \<open>"undefined"\<close>; the \<open>in\<close> operator looks along the chain.
\<close>

definition named :: "string \<Rightarrow> wire" where
  "named name = WObj [(''name'', WStr name)]"

definition classFunctions :: "state \<Rightarrow> property list \<Rightarrow> wire list" where
  "classFunctions s members =
     map (\<lambda>p. named (pname p))
       (filter (\<lambda>p. \<not> startsWithUnderscore (pname p) \<and> pname p \<noteq> ''constructor'' \<and>
                     (case pdesc p of Data v \<Rightarrow> isFunction s v | _ \<Rightarrow> False)) members)"

definition classGetters :: "state \<Rightarrow> property list \<Rightarrow> wire list" where
  "classGetters s members =
     map (\<lambda>p. WObj [(''name'', WStr (pname p)),
                    (''hasSetter'', WBool (case pdesc p of Accessor g st \<Rightarrow> st | _ \<Rightarrow> False))])
       (filter (\<lambda>p. \<not> startsWithUnderscore (pname p) \<and> pname p \<noteq> ''constructor'' \<and>
                     (case pdesc p of Accessor (Some v) st \<Rightarrow> True | _ \<Rightarrow> False)) members)"

definition classProperties :: "state \<Rightarrow> property list \<Rightarrow> wire list" where
  "classProperties s members =
     map (\<lambda>p. named (pname p))
       (filter (\<lambda>p. \<not> startsWithUnderscore (pname p) \<and> pname p \<noteq> ''constructor'' \<and>
                     (case pdesc p of
                        Data v \<Rightarrow> \<not> isFunction s v
                      | Accessor None st \<Rightarrow> True
                      | Accessor (Some v) st \<Rightarrow> False)) members)"

definition classIterator :: "protoobj list \<Rightarrow> wire" where
  "classIterator chain =
     (if ''undefined'' \<in> set (concat (map (map pname \<circ> p_members) chain)) then WStr ''asyncIterator''
      else if (\<exists>p \<in> set chain. p_iterator p) then WStr ''iterator''
      else WNull)"

definition classDescription :: "state \<Rightarrow> string \<Rightarrow> string option \<Rightarrow> protoobj \<Rightarrow> protoobj list \<Rightarrow> wire" where
  "classDescription s className parent proto rest =
     WObj ([(''className'', WStr className),
            (''iterator'', classIterator (proto # rest)),
            (''functions'', WArr (classFunctions s (p_members proto))),
            (''getters'', WArr (classGetters s (p_members proto))),
            (''properties'', WArr (classProperties s (p_members proto)))]
           @ (case parent of None \<Rightarrow> [] | Some name \<Rightarrow> [(''extends'', WStr name)]))"

text \<open>
  \<open>sendClassDescription(className, instance)\<close>; the chain is that of \<open>instance\<close>, whose first
  element is the prototype described. The class is marked as sent first, then the parent
  is described, then the description goes out with the \<open>class\<close> verb.
\<close>

fun sendClassDescription :: "peer \<Rightarrow> string \<Rightarrow> protoobj list \<Rightarrow> state \<Rightarrow> unit result" where
  "sendClassDescription peer className [] s =
     (if className \<in> localClasses s then (Inr (), s)
      else (Inl TypeError, s\<lparr>localClasses := insert className (localClasses s)\<rparr>))"
| "sendClassDescription peer className (proto # rest) s =
     (if className \<in> localClasses s then (Inr (), s)
      else
        (case getClassName rest of
           None \<Rightarrow> (Inl TypeError, s\<lparr>localClasses := insert className (localClasses s)\<rparr>)
         | Some parent \<Rightarrow>
             (case (if parent \<noteq> ''Object''
                    then sendClassDescription peer parent rest
                           (s\<lparr>localClasses := insert className (localClasses s)\<rparr>)
                    else (Inr (), s\<lparr>localClasses := insert className (localClasses s)\<rparr>)) of
                (Inl e, s1) \<Rightarrow> (Inl e, s1)
              | (Inr u, s1) \<Rightarrow>
                  (case callRemote peer ''class''
                          (WArr [classDescription s1 className
                                   (if parent \<noteq> ''Object'' then Some parent else None) proto rest]) s1 of
                     (Inl e, s2) \<Rightarrow> (Inl e, s2)
                   | (Inr reply, s2) \<Rightarrow> (Inr (), s2)))))"

text \<open>The branch for a function value calls \<open>getOrCreateIDForLocalObject\<close> twice; the branch
  for a stub reads the \<open>id\<close> property, which an assigned property named \<open>id\<close> overrides.\<close>

definition functionReference :: "addr \<Rightarrow> state \<Rightarrow> (wire result) option" where
  "functionReference a s =
     (case getOrCreateIDForLocalObject a s of
        None \<Rightarrow> None
      | Some (id0, s1) \<Rightarrow>
          (case getOrCreateIDForLocalObject a s1 of
             None \<Rightarrow> None
           | Some (i, s2) \<Rightarrow>
               Some (Inr (WObj [(''idLocal'', WStr i), (''className'', WStr ''Function'')]), s2)))"

definition stubReference :: "wire \<Rightarrow> (string \<times> jsval) list \<Rightarrow> state \<Rightarrow> wire result" where
  "stubReference i ps s =
     (case map_of ps ''id'' of
        None \<Rightarrow> (Inr (WObj [(''idRemote'', i)]), s)
      | Some v \<Rightarrow>
          (case to_wire v of
             None \<Rightarrow> (Inl NotWireValue, s)
           | Some w \<Rightarrow> (Inr (WObj [(''idRemote'', w)]), s)))"

text \<open>
  \<open>mapOutgoingObjects\<close> with \<open>createObjectDescription\<close> and their loops. The object graph may
  be cyclic, so the recursion is bounded by fuel: \<open>None\<close> means that the call has not
  returned within the fuel, or that \<open>generateNewObjID\<close> has not. Every \<open>await\<close> runs the
  awaited call to completion and \<open>Promise.all\<close> takes the elements from left to right.
  \<open>assert(className)\<close> cannot fail, since \<open>getClassName\<close> returns a non-empty name.
\<close>

function (sequential) mapOutgoingObjects :: "peer \<Rightarrow> nat \<Rightarrow> jsval \<Rightarrow> state \<Rightarrow> (wire result) option"
  and mapOutgoingArray :: "peer \<Rightarrow> nat \<Rightarrow> jsval list \<Rightarrow> state \<Rightarrow> (wire list result) option"
  and mapOutgoingFields ::
    "peer \<Rightarrow> nat \<Rightarrow> (string \<times> jsval) list \<Rightarrow> (string \<times> wire) list \<Rightarrow> state
      \<Rightarrow> ((string \<times> wire) list result) option"
  and createObjectDescription ::
    "peer \<Rightarrow> nat \<Rightarrow> protoobj list \<Rightarrow> property list \<Rightarrow> string \<Rightarrow> state \<Rightarrow> (wire result) option"
where
  "mapOutgoingObjects peer 0 value s = None"
| "mapOutgoingObjects peer (Suc n) VUndef s = Some (Inr WUndef, s)"
| "mapOutgoingObjects peer (Suc n) VNull s = Some (Inr WNull, s)"
| "mapOutgoingObjects peer (Suc n) (VBool b) s = Some (Inr (WBool b), s)"
| "mapOutgoingObjects peer (Suc n) (VNum x) s = Some (Inr (WNum x), s)"
| "mapOutgoingObjects peer (Suc n) (VStr x) s = Some (Inr (WStr x), s)"
| "mapOutgoingObjects peer (Suc n) (VArr xs) s =
     (case mapOutgoingArray peer n xs s of
        None \<Rightarrow> None
      | Some (Inl e, s1) \<Rightarrow> Some (Inl e, s1)
      | Some (Inr ws, s1) \<Rightarrow> Some (Inr (WArr ws), s1))"
| "mapOutgoingObjects peer (Suc n) (VRef a) s =
     (case heap s a of
        None \<Rightarrow> Some (Inl (Collected a), s)
      | Some Function \<Rightarrow> functionReference a s
      | Some (Callable i) \<Rightarrow> functionReference a s
      | Some (Stub c i ps) \<Rightarrow> Some (stubReference i ps s)
      | Some (Object chain own) \<Rightarrow>
          (case getClassName chain of
             None \<Rightarrow> Some (Inl TypeError, s)
           | Some className \<Rightarrow>
               if className = ''Object'' then
                 (case mapOutgoingFields peer n
                         (map (\<lambda>k. (k, js_get (concat (levels chain own)) k))
                            (forin_names (levels chain own) [])) [] s of
                    None \<Rightarrow> None
                  | Some (Inl e, s1) \<Rightarrow> Some (Inl e, s1)
                  | Some (Inr plainObject, s1) \<Rightarrow> Some (Inr (WObj [(''plainObject'', WObj plainObject)]), s1))
               else
                 (case getOrCreateIDForLocalObject a s of
                    None \<Rightarrow> None
                  | Some (i, s1) \<Rightarrow> createObjectDescription peer n chain own i s1)))"
| "mapOutgoingArray peer n [] s = Some (Inr [], s)"
| "mapOutgoingArray peer n (x # xs) s =
     (case mapOutgoingObjects peer n x s of
        None \<Rightarrow> None
      | Some (Inl e, s1) \<Rightarrow> Some (Inl e, s1)
      | Some (Inr w, s1) \<Rightarrow>
          (case mapOutgoingArray peer n xs s1 of
             None \<Rightarrow> None
           | Some (Inl e, s2) \<Rightarrow> Some (Inl e, s2)
           | Some (Inr ws, s2) \<Rightarrow> Some (Inr (w # ws), s2)))"
| "mapOutgoingFields peer n [] json s = Some (Inr json, s)"
| "mapOutgoingFields peer n ((propName, v) # rest) json s =
     (case mapOutgoingObjects peer n v s of
        None \<Rightarrow> None
      | Some (Inl e, s1) \<Rightarrow> Some (Inl e, s1)
      | Some (Inr w, s1) \<Rightarrow> mapOutgoingFields peer n rest (assoc_set json propName w) s1)"
| "createObjectDescription peer n chain own i s =
     (case getClassName chain of
        None \<Rightarrow> Some (Inl TypeError, s)
      | Some className \<Rightarrow>
          (case (if className \<notin> localClasses s then sendClassDescription peer className chain s
                 else (Inr (), s)) of
             (Inl e, s1) \<Rightarrow> Some (Inl e, s1)
           | (Inr u, s1) \<Rightarrow>
               (case mapOutgoingFields peer n
                       (map (\<lambda>p. (pname p, js_get own (pname p))) (filter (describedProperty s1) own)) [] s1 of
                  None \<Rightarrow> None
                | Some (Inl e, s2) \<Rightarrow> Some (Inl e, s2)
                | Some (Inr props, s2) \<Rightarrow>
                    Some (Inr (WObj [(''idLocal'', WStr i), (''className'', WStr className),
                                     (''properties'', if props = [] then WNull else WObj props)]), s2))))"

  by pat_completeness auto

termination
  by (relation "measures
        [\<lambda>x. case x of
           Inl (Inl (peer, n, v, s)) \<Rightarrow> n
         | Inl (Inr (peer, n, xs, s)) \<Rightarrow> n
         | Inr (Inl (peer, n, es, json, s)) \<Rightarrow> n
         | Inr (Inr (peer, n, chain, own, i, s)) \<Rightarrow> n,
         \<lambda>x. case x of
           Inl (Inl (peer, n, v, s)) \<Rightarrow> 0
         | Inl (Inr (peer, n, xs, s)) \<Rightarrow> 1
         | Inr (Inl (peer, n, es, json, s)) \<Rightarrow> 1
         | Inr (Inr (peer, n, chain, own, i, s)) \<Rightarrow> 2,
         \<lambda>x. case x of
           Inl (Inl (peer, n, v, s)) \<Rightarrow> 0
         | Inl (Inr (peer, n, xs, s)) \<Rightarrow> length xs
         | Inr (Inl (peer, n, es, json, s)) \<Rightarrow> length es
         | Inr (Inr (peer, n, chain, own, i, s)) \<Rightarrow> 0]") simp_all


declare createObjectDescription.simps [simp del]
declare makeStub.simps [simp del]

section \<open>Example states\<close>

definition emptyState :: state where
  "emptyState = \<lparr>heap = Map.empty, nextAddr = 0, remoteClasses = {}, remoteObjects = Map.empty,
     localIDsToObjects = Map.empty, localObjectsToIDs = Map.empty, localClasses = {},
     trace = [], random = []\<rparr>"

text \<open>An instance of \<open>class Car\<close> at address 0 (the constructor function at address 1), not
  yet exposed; the same after \<open>getOrCreateIDForLocalObject\<close> has drawn the ID \<open>"42"\<close>; and
  after the peer has released it.\<close>

definition carPrototype :: protoobj where
  "carPrototype = \<lparr>p_tag = None, p_ctor = Some ''Car'', p_iterator = False,
     p_members = [Prop ''constructor'' False (Data (VRef 1))]\<rparr>"

definition carState :: state where
  "carState = emptyState\<lparr>
     heap := [0 \<mapsto> Object [carPrototype, objectPrototype] [Prop ''wheels'' True (Data (VNum 4))],
              1 \<mapsto> Function],
     nextAddr := 2, random := [42]\<rparr>"

definition carExposed :: state where
  "carExposed = carState\<lparr>localIDsToObjects := [WStr ''42'' \<mapsto> Strong 0],
                           localObjectsToIDs := [0 \<mapsto> ''42''], random := []\<rparr>"


text \<open>A peer that acknowledges every call.\<close>

definition acceptingPeer :: peer where
  "acceptingPeer history method payload = Inr WUndef"


section \<open>Identity of local objects\<close>

lemma toFixed_nonempty: "toFixed n \<noteq> []"
  by (subst toFixed.simps) simp

lemma toFixed_42: "toFixed 42 = ''42''"
  by (simp add: toFixed.simps)

lemma generateNewObjID_loop_result:
  "generateNewObjID_loop m rs = Some (i, rs') \<Longrightarrow> i \<noteq> [] \<and> m (WStr i) = None"
  by (induction rs) (auto simp: toFixed_nonempty split: if_splits)

lemma getOrCreateID_entry:
  assumes "getOrCreateIDForLocalObject a s = Some (i, s1)"
  shows "i \<noteq> [] \<and> localIDsToObjects s1 (WStr i) = Some (Strong a) \<and> localObjectsToIDs s1 a = Some i
         \<and> heap s1 = heap s"
  using assms
  by (auto simp: getOrCreateIDForLocalObject_def generateNewObjID_def mapSet_def
           split: option.splits if_splits dest: generateNewObjID_loop_result)

lemma carState_expose: "getOrCreateIDForLocalObject 0 carState = Some (''42'', carExposed)"
  by (simp add: getOrCreateIDForLocalObject_def generateNewObjID_def carState_def carExposed_def
        emptyState_def mapSet_def toFixed_42)

text \<open>
  Claim C1. A local object \<open>a\<close> that has been exposed, so that \<open>getOrCreateIDForLocalObject\<close>
  returned the ID \<open>i\<close>, comes back from the echoed reference \<open>{idRemote: i}\<close> as the very
  same object: the incoming marshaller returns the reference to \<open>a\<close> itself and changes
  nothing.
\<close>

theorem identity_round_trip:
  assumes "getOrCreateIDForLocalObject a s = Some (i, s1)"
  shows "mapIncomingObjects (WObj [(''idRemote'', WStr i)]) s1 = (Inr (VRef a), s1)"
  using getOrCreateID_entry [OF assms]
  by (simp add: get_field_def getLocalObject_def mapGet_def)

theorem identity_round_trip_witness:
  "getOrCreateIDForLocalObject 0 carState = Some (''42'', carExposed)
   \<and> mapIncomingObjects (WObj [(''idRemote'', WStr ''42'')]) carExposed = (Inr (VRef 0), carExposed)"
  using identity_round_trip [OF carState_expose] carState_expose by simp

section \<open>The registry of stubs\<close>








section \<open>Release of local objects\<close>




section \<open>Descriptions of classed objects\<close>

text \<open>The class message and the description that marshalling the car of the example states
  gives, and the state after the class has been described.\<close>

definition carClassMessage :: "string \<times> wire" where
  "carClassMessage = (''class'', WArr [WObj [(''className'', WStr ''Car''), (''iterator'', WNull),
      (''functions'', WArr []), (''getters'', WArr []), (''properties'', WArr [])]])"

definition carDescription :: wire where
  "carDescription = WObj [(''idLocal'', WStr ''42''), (''className'', WStr ''Car''),
                          (''properties'', WObj [(''wheels'', WNum 4)])]"

definition carAnnounced :: state where
  "carAnnounced = carExposed\<lparr>localClasses := {''Car''}, trace := [carClassMessage]\<rparr>"

lemma carClassName: "getClassName [carPrototype, objectPrototype] = Some ''Car''"
  by (simp add: getClassName_def carPrototype_def objectPrototype_def)

lemma carExposed_marshal:
  "mapOutgoingObjects acceptingPeer 2 (VRef 0) carExposed = Some (Inr carDescription, carAnnounced)"
  by (simp add: createObjectDescription.simps numeral_2_eq_2 carExposed_def carState_def emptyState_def carClassName
        getOrCreateIDForLocalObject_def mapSet_def carAnnounced_def carDescription_def
        objectPrototype_def getClassName_def callRemote_def acceptingPeer_def classDescription_def
        classIterator_def classFunctions_def classGetters_def classProperties_def
        describedProperty_def startsWithUnderscore_def isFunction_def carClassMessage_def
        carPrototype_def)







section \<open>What the incoming marshaller leaves untouched\<close>

text \<open>
  The allocation counter is ahead of every object of the heap, and of every object that
  the remote registry refers to: a new object is never one that a weak reference already
  names.
\<close>

definition heap_wf :: "state \<Rightarrow> bool" where
  "heap_wf s \<longleftrightarrow> (\<forall>a. nextAddr s \<le> a \<longrightarrow> heap s a = None)
               \<and> (\<forall>i a. remoteObjects s i = Some a \<longrightarrow> a < nextAddr s)"

text \<open>
  One run of the incoming marshaller, from \<open>s\<close> to \<open>s'\<close>, writing to the objects \<open>T\<close> only:
  objects are added, never removed; the objects there before, other than those of \<open>T\<close>, are
  as they were; a stub that is registered and alive stays so; no class is registered.
\<close>

definition incoming_step :: "addr set \<Rightarrow> state \<Rightarrow> state \<Rightarrow> bool" where
  "incoming_step T s s' \<longleftrightarrow>
     nextAddr s \<le> nextAddr s'
     \<and> (heap_wf s \<longrightarrow> heap_wf s')
     \<and> (\<forall>b. heap s b \<noteq> None \<longrightarrow> heap s' b \<noteq> None)
     \<and> (\<forall>b. b < nextAddr s \<and> b \<notin> T \<longrightarrow> heap s' b = heap s b)
     \<and> (\<forall>i a. getRemoteObject i s = Some a \<longrightarrow> getRemoteObject i s' = Some a)
     \<and> remoteClasses s' = remoteClasses s"

lemma incoming_step_refl: "incoming_step T s s"
  by (simp add: incoming_step_def)

lemma incoming_stepD:
  assumes "incoming_step T s s'"
  shows "nextAddr s \<le> nextAddr s'"
    and "heap_wf s \<Longrightarrow> heap_wf s'"
    and "heap s b \<noteq> None \<Longrightarrow> heap s' b \<noteq> None"
    and "b < nextAddr s \<Longrightarrow> b \<notin> T \<Longrightarrow> heap s' b = heap s b"
    and "getRemoteObject i s = Some a \<Longrightarrow> getRemoteObject i s' = Some a"
    and "remoteClasses s' = remoteClasses s"
  using assms unfolding incoming_step_def by simp_all

lemma incoming_step_trans2:
  assumes "incoming_step T1 s s1" "incoming_step T2 s1 s2"
    and "\<And>b. b < nextAddr s \<Longrightarrow> b \<notin> T \<Longrightarrow> b \<notin> T1 \<and> b \<notin> T2"
  shows "incoming_step T s s2"
  unfolding incoming_step_def
proof (intro conjI allI impI)
  show "nextAddr s \<le> nextAddr s2"
    using incoming_stepD(1) [OF assms(1)] incoming_stepD(1) [OF assms(2)] by simp
  show "heap_wf s2" if "heap_wf s"
    using that incoming_stepD(2) [OF assms(1)] incoming_stepD(2) [OF assms(2)] by simp
  show "heap s2 b \<noteq> None" if "heap s b \<noteq> None" for b
    using that incoming_stepD(3) [OF assms(1)] incoming_stepD(3) [OF assms(2)] by simp
  show "heap s2 b = heap s b" if "b < nextAddr s \<and> b \<notin> T" for b
  proof -
    have "b \<notin> T1" "b \<notin> T2" using that assms(3) by auto
    moreover have "b < nextAddr s1" using that incoming_stepD(1) [OF assms(1)] by simp
    ultimately show ?thesis
      using that incoming_stepD(4) [OF assms(1), of b] incoming_stepD(4) [OF assms(2), of b] by simp
  qed
  show "getRemoteObject i s2 = Some a" if "getRemoteObject i s = Some a" for i a
    using that incoming_stepD(5) [OF assms(1)] incoming_stepD(5) [OF assms(2)] by simp
  show "remoteClasses s2 = remoteClasses s"
    using incoming_stepD(6) [OF assms(1)] incoming_stepD(6) [OF assms(2)] by simp
qed

lemma incoming_step_trans:
  "incoming_step T s s1 \<Longrightarrow> incoming_step T s1 s2 \<Longrightarrow> incoming_step T s s2"
  by (rule incoming_step_trans2) auto

lemma incoming_step_mono: "incoming_step T s s' \<Longrightarrow> T \<subseteq> T' \<Longrightarrow> incoming_step T' s s'"
  using incoming_step_trans2 [of T s s' T s' T'] incoming_step_refl by blast

lemma incoming_step_fresh:
  assumes "incoming_step {} s s1" "incoming_step T s1 s2" "\<forall>b\<in>T. nextAddr s \<le> b"
  shows "incoming_step {} s s2"
  using assms(1,2)
proof (rule incoming_step_trans2)
  fix b assume "b < nextAddr s" "b \<notin> {}"
  then show "b \<notin> {} \<and> b \<notin> T" using assms(3) by auto
qed

lemma incoming_step_alloc: "incoming_step {} s (snd (alloc obj s))"
  by (auto simp: incoming_step_def alloc_def heap_wf_def getRemoteObject_def deref_def less_SucI
           split: option.splits if_splits)

lemma incoming_step_addRemoteObject:
  "a < nextAddr s \<Longrightarrow> incoming_step {} s (snd (addRemoteObject i a s))"
  by (auto simp: incoming_step_def addRemoteObject_def assert_def heap_wf_def getRemoteObject_def
                 deref_def mapGet_def mapSet_def
           split: option.splits if_splits)

lemma incoming_step_setProp: "incoming_step {t} s (setProp t k v s)"
  by (auto simp: incoming_step_def setProp_def heap_wf_def getRemoteObject_def deref_def
           split: option.splits if_splits jsobj.splits)

lemma incoming_step_getLocalObject: "incoming_step {} s (snd (getLocalObject i s))"
  by (auto simp: incoming_step_def getLocalObject_def heap_wf_def getRemoteObject_def deref_def
           split: option.splits if_splits lref.splits)

lemma alloc_eq: "alloc obj s = (nextAddr s, snd (alloc obj s))"
  by (simp add: alloc_def)

lemma nextAddr_alloc: "nextAddr (snd (alloc obj s)) = Suc (nextAddr s)"
  by (simp add: alloc_def)

lemma incoming_step_register:
  "incoming_step {} s (snd (addRemoteObject i (nextAddr s) (snd (alloc obj s))))"
proof -
  have "incoming_step {} (snd (alloc obj s)) (snd (addRemoteObject i (nextAddr s) (snd (alloc obj s))))"
    by (rule incoming_step_addRemoteObject) (simp add: nextAddr_alloc)
  then show ?thesis
    using incoming_step_alloc incoming_step_trans by blast
qed

lemma incoming_frame:
  shows "incoming_step {} s (snd (mapIncomingObjects w s))"
    and "incoming_step {} s (snd (mapIncomingArray xs s))"
    and "incoming_step {} s (snd (makeStub obj s))"
    and "incoming_step {t} s (snd (assignFields t es s))"
proof (induction w s and xs s and obj s and t es s
       rule: mapIncomingObjects_mapIncomingArray_makeStub_assignFields.induct)
  case (6 xs s)
  then show ?case
    by (cases "mapIncomingArray xs s") (auto split: sum.splits)
next
  case (7 obj s)
  show ?case
  proof (cases "truthy (get_field obj ''idLocal'')")
    case True
    show ?thesis
    proof (cases "getRemoteObject (get_field obj ''idLocal'') s")
      case (Some stub)
      then show ?thesis using True by (simp add: incoming_step_refl)
    next
      case None
      show ?thesis
      proof (cases "isFunctionName (get_field obj ''className'')")
        case True
        have "snd (mapIncomingObjects (WObj obj) s)
              = snd (addRemoteObject (get_field obj ''idLocal'') (nextAddr s)
                       (snd (alloc (Callable (get_field obj ''idLocal'')) s)))"
          using True None \<open>truthy (get_field obj ''idLocal'')\<close>
          by (simp add: makeCallable_def alloc_def split: prod.splits sum.splits)
        then show ?thesis by (simp add: incoming_step_register)
      next
        case False
        then show ?thesis
          using None \<open>truthy (get_field obj ''idLocal'')\<close> "7.IH"(1) by simp
      qed
    qed
  next
    case noLocal: False
    show ?thesis
    proof (cases "truthy (get_field obj ''idRemote'')")
      case True
      then show ?thesis using noLocal by (simp add: incoming_step_getLocalObject)
    next
      case noRemote: False
      show ?thesis
      proof (cases "truthy (get_field obj ''plainObject'')")
        case True
        let ?y = "snd (alloc (Object [objectPrototype] []) s)"
        have ih: "incoming_step {nextAddr s} ?y
                    (snd (assignFields (nextAddr s) (forin_entries (get_field obj ''plainObject'')) ?y))"
          using "7.IH"(2) [OF noLocal noRemote True alloc_eq [symmetric]] .
        have "incoming_step {} s
                (snd (assignFields (nextAddr s) (forin_entries (get_field obj ''plainObject'')) ?y))"
          using incoming_step_alloc ih by (rule incoming_step_fresh) simp
        moreover have "snd (mapIncomingObjects (WObj obj) s)
              = snd (assignFields (nextAddr s) (forin_entries (get_field obj ''plainObject'')) ?y)"
          using noLocal noRemote True
          by (simp add: alloc_def split: prod.splits sum.splits)
        ultimately show ?thesis by simp
      next
        case False
        then show ?thesis using noLocal noRemote by (simp add: incoming_step_refl)
      qed
    qed
  qed
next
  case (9 x xs s)
  obtain r s1 where first: "mapIncomingObjects x s = (r, s1)"
    by (cases "mapIncomingObjects x s")
  have one: "incoming_step {} s s1" using "9.IH"(1) first by simp
  show ?case
  proof (cases r)
    case (Inl e)
    then show ?thesis using first one by simp
  next
    case (Inr v)
    have "incoming_step {} s1 (snd (mapIncomingArray xs s1))"
      using "9.IH"(2) [OF first [symmetric] Inr] .
    then have "incoming_step {} s (snd (mapIncomingArray xs s1))"
      using one incoming_step_trans by blast
    then show ?thesis using first Inr by (auto split: prod.splits sum.splits)
  qed
next
  case (10 objDescrJSON s)
  let ?cn = "get_field objDescrJSON ''className''"
  let ?id = "get_field objDescrJSON ''idLocal''"
  show ?case
  proof (cases "mapHas (remoteClasses s) ?cn")
    case False
    then show ?thesis by (simp add: makeStub.simps assert_def incoming_step_refl)
  next
    case True
    let ?s1 = "snd (alloc (Stub ?cn ?id []) s)"
    obtain r s2 where reg: "addRemoteObject ?id (nextAddr s) ?s1 = (r, s2)"
      by (cases "addRemoteObject ?id (nextAddr s) ?s1")
    have two: "incoming_step {} s s2"
      using incoming_step_register [of s ?id "Stub ?cn ?id []"] reg by simp
    show ?thesis
    proof (cases r)
      case (Inl e)
      then show ?thesis using True reg two by (simp add: makeStub.simps assert_def alloc_def)
    next
      case (Inr u)
      have a: "(Inr (), s) = assert (mapHas (remoteClasses s) ?cn) (UnknownRemoteClass ?cn) s"
        using True by (simp add: assert_def)
      have ih: "incoming_step {nextAddr s} s2
                  (snd (assignFields (nextAddr s) (forin_entries (get_field objDescrJSON ''properties'')) s2))"
        using "10.IH" [OF a refl alloc_eq [symmetric] reg [symmetric] Inr] .
      have "incoming_step {} s
              (snd (assignFields (nextAddr s) (forin_entries (get_field objDescrJSON ''properties'')) s2))"
        using two ih by (rule incoming_step_fresh) simp
      moreover have "snd (makeStub objDescrJSON s)
            = snd (assignFields (nextAddr s) (forin_entries (get_field objDescrJSON ''properties'')) s2)"
        using True reg Inr
        by (simp add: makeStub.simps assert_def alloc_def split: prod.splits sum.splits)
      ultimately show ?thesis by simp
    qed
  qed
next
  case (12 t propName w rest s)
  obtain r s1 where first: "mapIncomingObjects w s = (r, s1)"
    by (cases "mapIncomingObjects w s")
  have one: "incoming_step {t} s s1"
    using "12.IH"(1) first incoming_step_mono [of "{}" s s1 "{t}"] by simp
  show ?case
  proof (cases r)
    case (Inl e)
    then show ?thesis using first one by simp
  next
    case (Inr v)
    have "incoming_step {t} (setProp t propName v s1)
            (snd (assignFields t rest (setProp t propName v s1)))"
      using "12.IH"(2) [OF first [symmetric] Inr] .
    then have "incoming_step {t} s (snd (assignFields t rest (setProp t propName v s1)))"
      using one incoming_step_setProp [of t s1 propName v] incoming_step_trans by blast
    then show ?thesis using first Inr by simp
  qed
qed (simp_all add: incoming_step_refl)

section \<open>Incoming references and descriptions\<close>






















section \<open>Plain records\<close>

text \<open>
  A plain record as a tree: JSON primitives and records of named fields. \<open>encode\<close> is its
  wire form \<open>{plainObject: m}\<close>, with every field encoded in turn.
\<close>

datatype plain = PNull | PBool bool | PNum int | PStr string | PRec "(string \<times> plain) list"

fun encode :: "plain \<Rightarrow> wire" where
  "encode PNull = WNull"
| "encode (PBool b) = WBool b"
| "encode (PNum n) = WNum n"
| "encode (PStr x) = WStr x"
| "encode (PRec fs) = WObj [(''plainObject'', WObj (map (\<lambda>f. (fst f, encode (snd f))) fs))]"

fun depth :: "plain \<Rightarrow> nat" where
  "depth (PRec fs) = Suc (fold max (map (\<lambda>f. depth (snd f)) fs) 0)"
| "depth t = 1"

text \<open>
  \<open>holds s v t\<close>: in the heap of \<open>s\<close> the value \<open>v\<close> is the plain record \<open>t\<close>. A record is an
  object whose class name is \<open>"Object"\<close>, whose prototypes have no enumerable property, and
  whose own properties are the fields of \<open>t\<close> in order, enumerable data properties with
  distinct names. \<open>cells s v t\<close> are the objects that make up the record.
\<close>

definition plainChain :: "protoobj list \<Rightarrow> bool" where
  "plainChain chain \<longleftrightarrow> getClassName chain = Some ''Object''
                        \<and> list_all (\<lambda>p. list_all (\<lambda>m. \<not> penum m) (p_members p)) chain"

fun holds :: "state \<Rightarrow> jsval \<Rightarrow> plain \<Rightarrow> bool"
  and holdsFields :: "state \<Rightarrow> property list \<Rightarrow> (string \<times> plain) list \<Rightarrow> bool" where
  "holds s v PNull = (v = VNull)"
| "holds s v (PBool b) = (v = VBool b)"
| "holds s v (PNum n) = (v = VNum n)"
| "holds s v (PStr x) = (v = VStr x)"
| "holds s v (PRec fs) =
     (case v of
        VRef a \<Rightarrow>
          (case heap s a of
             Some (Object chain own) \<Rightarrow> plainChain chain \<and> distinct (map fst fs) \<and> holdsFields s own fs
           | _ \<Rightarrow> False)
      | _ \<Rightarrow> False)"
| "holdsFields s [] [] = True"
| "holdsFields s (p # ps) (f # fs) =
     (pname p = fst f \<and> penum p \<and> (case pdesc p of Data x \<Rightarrow> holds s x (snd f) | _ \<Rightarrow> False)
      \<and> holdsFields s ps fs)"
| "holdsFields s [] (f # fs) = False"
| "holdsFields s (p # ps) [] = False"

fun cells :: "state \<Rightarrow> jsval \<Rightarrow> plain \<Rightarrow> addr set"
  and cellsFields :: "state \<Rightarrow> property list \<Rightarrow> (string \<times> plain) list \<Rightarrow> addr set" where
  "cells s v (PRec fs) =
     (case v of
        VRef a \<Rightarrow>
          (case heap s a of
             Some (Object chain own) \<Rightarrow> insert a (cellsFields s own fs)
           | _ \<Rightarrow> {})
      | _ \<Rightarrow> {})"
| "cells s v PNull = {}"
| "cells s v (PBool b) = {}"
| "cells s v (PNum n) = {}"
| "cells s v (PStr x) = {}"
| "cellsFields s (p # ps) (f # fs) =
     (case pdesc p of Data x \<Rightarrow> cells s x (snd f) | _ \<Rightarrow> {}) \<union> cellsFields s ps fs"
| "cellsFields s [] fs = {}"
| "cellsFields s (p # ps) [] = {}"

text \<open>The value that reading a property gives.\<close>

definition dataValue :: "property \<Rightarrow> jsval" where
  "dataValue p = (case pdesc p of Data x \<Rightarrow> x | Accessor None st \<Rightarrow> VUndef | Accessor (Some x) st \<Rightarrow> x)"

lemma holdsFields_names: "holdsFields s own fs \<Longrightarrow> map pname own = map fst fs"
proof (induction own arbitrary: fs)
  case Nil
  then show ?case by (cases fs) auto
next
  case (Cons p ps)
  then show ?case by (cases fs) auto
qed

lemma holdsFields_enum: "holdsFields s own fs \<Longrightarrow> list_all penum own"
proof (induction own arbitrary: fs)
  case Nil
  then show ?case by simp
next
  case (Cons p ps)
  then show ?case by (cases fs) auto
qed

lemma js_get_found:
  "p \<in> set ps \<Longrightarrow> distinct (map pname ps) \<Longrightarrow> js_get (ps @ qs) (pname p) = dataValue p"
proof (induction ps)
  case Nil
  then show ?case by simp
next
  case (Cons q ps)
  then show ?case
    by (cases "pdesc q") (auto simp: dataValue_def split: option.splits)
qed

lemma forin_names_hidden:
  "list_all (\<lambda>level. list_all (\<lambda>m. \<not> penum m) level) lvls \<Longrightarrow> forin_names lvls seen = []"
  by (induction lvls arbitrary: seen) (auto simp: list_all_iff filter_empty_conv)

lemma forin_names_plain:
  assumes "list_all penum own" "list_all (\<lambda>p. list_all (\<lambda>m. \<not> penum m) (p_members p)) chain"
  shows "forin_names (levels chain own) [] = map pname own"
proof -
  have "list_all (\<lambda>level. list_all (\<lambda>m. \<not> penum m) level) (map p_members chain)"
    using assms(2) by (simp add: list_all_iff)
  then have "forin_names (map p_members chain) ([] @ map pname own) = []"
    by (rule forin_names_hidden)
  moreover have "filter (\<lambda>p. penum p \<and> pname p \<notin> set []) own = own"
    using assms(1) by (simp add: list_all_iff)
  ultimately show ?thesis by (simp add: levels_def)
qed

lemma plain_entries:
  assumes "list_all penum own" "distinct (map pname own)"
    and "list_all (\<lambda>p. list_all (\<lambda>m. \<not> penum m) (p_members p)) chain"
  shows "map (\<lambda>k. (k, js_get (concat (levels chain own)) k)) (forin_names (levels chain own) [])
         = map (\<lambda>p. (pname p, dataValue p)) own"
proof -
  have "js_get (concat (levels chain own)) (pname p) = dataValue p" if "p \<in> set own" for p
    using js_get_found [OF that assms(2), of "concat (map p_members chain)"] by (simp add: levels_def)
  then show ?thesis
    by (simp add: forin_names_plain [OF assms(1,3)])
qed

lemma fold_max_ge: "(a::nat) \<le> fold max xs a"
  by (induction xs arbitrary: a) (auto intro: order_trans [OF max.cobounded2])

lemma fold_max_mem: "(x::nat) \<in> set xs \<Longrightarrow> x \<le> fold max xs a"
proof (induction xs arbitrary: a)
  case Nil
  then show ?case by simp
next
  case (Cons y ys)
  show ?case
  proof (cases "x = y")
    case True
    have "max y a \<le> fold max ys (max y a)" by (rule fold_max_ge)
    then show ?thesis using True by simp
  next
    case False
    then show ?thesis using Cons by simp
  qed
qed

lemma depth_field: "f \<in> set fs \<Longrightarrow> depth (PRec fs) \<le> Suc n \<Longrightarrow> depth (snd f) \<le> n"
  using fold_max_mem [of "depth (snd f)" "map (\<lambda>f. depth (snd f)) fs" 0] by auto

lemma assoc_set_new: "k \<notin> fst ` set json \<Longrightarrow> assoc_set json k w = json @ [(k, w)]"
  by (induction json) auto

lemma outgoing_plain:
  shows "holds s v t \<Longrightarrow> depth t \<le> fuel \<Longrightarrow> mapOutgoingObjects peer fuel v s = Some (Inr (encode t), s)"
    and "holdsFields s own fs \<Longrightarrow> (\<forall>f\<in>set fs. depth (snd f) \<le> n) \<Longrightarrow> distinct (map fst fs)
         \<Longrightarrow> fst ` set json \<inter> fst ` set fs = {}
         \<Longrightarrow> mapOutgoingFields peer n (map (\<lambda>p. (pname p, dataValue p)) own) json s
             = Some (Inr (json @ map (\<lambda>f. (fst f, encode (snd f))) fs), s)"
proof (induction s v t and s own fs arbitrary: fuel and n json rule: holds_holdsFields.induct)
  case (1 s v)
  then show ?case by (cases fuel) auto
next
  case (2 s v b)
  then show ?case by (cases fuel) auto
next
  case (3 s v n)
  then show ?case by (cases fuel) auto
next
  case (4 s v x)
  then show ?case by (cases fuel) auto
next
  case (5 s v fs)
  from "5.prems"(1) obtain a chain own where v: "v = VRef a"
    and cell: "heap s a = Some (Object chain own)"
    and pc: "plainChain chain" and d: "distinct (map fst fs)" and hf: "holdsFields s own fs"
    by (auto split: jsval.splits option.splits jsobj.splits)
  obtain n where fuel: "fuel = Suc n"
    using "5.prems"(2) by (cases fuel) auto
  have depths: "\<forall>f\<in>set fs. depth (snd f) \<le> n"
    using depth_field "5.prems"(2) fuel by blast
  have names: "map pname own = map fst fs" by (rule holdsFields_names [OF hf])
  have entries: "map (\<lambda>k. (k, js_get (concat (levels chain own)) k)) (forin_names (levels chain own) [])
         = map (\<lambda>p. (pname p, dataValue p)) own"
    using plain_entries [OF holdsFields_enum [OF hf]] names d pc by (simp add: plainChain_def)
  have "mapOutgoingFields peer n (map (\<lambda>p. (pname p, dataValue p)) own) [] s
        = Some (Inr ([] @ map (\<lambda>f. (fst f, encode (snd f))) fs), s)"
    using "5.IH" [OF v cell _ hf depths d] by simp
  then show ?case
    using v cell pc fuel entries by (simp add: plainChain_def)
next
  case (6 s)
  then show ?case by simp
next
  case (7 s p ps f fs)
  from "7.prems"(1) obtain x where px: "pdesc p = Data x" and hx: "holds s x (snd f)"
    and name: "pname p = fst f" and rest: "holdsFields s ps fs"
    by (auto split: descriptor.splits)
  have one: "mapOutgoingObjects peer n x s = Some (Inr (encode (snd f)), s)"
    using "7.IH"(1) [OF px hx] "7.prems"(2) by simp
  have new: "fst f \<notin> fst ` set json"
    using "7.prems"(4) by auto
  have "fst ` set (json @ [(fst f, encode (snd f))]) \<inter> fst ` set fs = {}"
    using "7.prems"(3,4) by auto
  then have "mapOutgoingFields peer n (map (\<lambda>p. (pname p, dataValue p)) ps)
           (json @ [(fst f, encode (snd f))]) s
        = Some (Inr ((json @ [(fst f, encode (snd f))]) @ map (\<lambda>f. (fst f, encode (snd f))) fs), s)"
    using "7.IH"(2) [OF rest] "7.prems"(2,3) by simp
  then show ?case
    using one px name new by (simp add: dataValue_def assoc_set_new)
next
  case (8 s f fs)
  then show ?case by simp
next
  case (9 s p ps)
  then show ?case by simp
qed

lemma holds_frame:
  shows "holds s v t \<Longrightarrow> (\<And>b. b \<in> cells s v t \<Longrightarrow> heap s' b = heap s b)
         \<Longrightarrow> holds s' v t \<and> cells s' v t = cells s v t"
    and "holdsFields s own fs \<Longrightarrow> (\<And>b. b \<in> cellsFields s own fs \<Longrightarrow> heap s' b = heap s b)
         \<Longrightarrow> holdsFields s' own fs \<and> cellsFields s' own fs = cellsFields s own fs"
proof (induction s v t and s own fs rule: holds_holdsFields.induct)
  case (5 s v fs)
  from "5.prems"(1) obtain a chain own where v: "v = VRef a"
    and cell: "heap s a = Some (Object chain own)"
    and pc: "plainChain chain" and d: "distinct (map fst fs)" and hf: "holdsFields s own fs"
    by (auto split: jsval.splits option.splits jsobj.splits)
  have same: "heap s' a = Some (Object chain own)"
    using "5.prems"(2) [of a] v cell by simp
  have "holdsFields s' own fs \<and> cellsFields s' own fs = cellsFields s own fs"
    using "5.IH" [OF v cell _ hf] "5.prems"(2) v cell by simp
  then show ?case using v cell same pc d by simp
next
  case (7 s p ps f fs)
  from "7.prems"(1) obtain x where px: "pdesc p = Data x" and hx: "holds s x (snd f)"
    and name: "pname p = fst f" and en: "penum p" and rest: "holdsFields s ps fs"
    by (auto split: descriptor.splits)
  have "holds s' x (snd f) \<and> cells s' x (snd f) = cells s x (snd f)"
    using "7.IH"(1) [OF px hx] "7.prems"(2) px by simp
  moreover have "holdsFields s' ps fs \<and> cellsFields s' ps fs = cellsFields s ps fs"
    using "7.IH"(2) [OF rest] "7.prems"(2) by simp
  ultimately show ?case using px name en by simp
qed simp_all

lemma cells_alive:
  shows "holds s v t \<Longrightarrow> b \<in> cells s v t \<Longrightarrow> heap s b \<noteq> None"
    and "holdsFields s own fs \<Longrightarrow> b \<in> cellsFields s own fs \<Longrightarrow> heap s b \<noteq> None"
proof (induction s v t and s own fs rule: holds_holdsFields.induct)
  case (5 s v fs)
  then show ?case
    by (auto split: jsval.splits option.splits jsobj.splits)
next
  case (7 s p ps f fs)
  then show ?case
    by (auto split: descriptor.splits)
qed simp_all

lemma holdsFields_append:
  "holdsFields s own fs \<Longrightarrow> holdsFields s [p] [f] \<Longrightarrow> holdsFields s (own @ [p]) (fs @ [f])"
proof (induction own arbitrary: fs)
  case Nil
  then show ?case by (cases fs) auto
next
  case (Cons q qs)
  then show ?case by (cases fs) auto
qed

lemma cellsFields_append:
  "length own = length fs \<Longrightarrow>
   cellsFields s (own @ [p]) (fs @ [f]) = cellsFields s own fs \<union> cellsFields s [p] [f]"
proof (induction own arbitrary: fs)
  case Nil
  then show ?case by simp
next
  case (Cons q qs)
  then show ?case by (cases fs) auto
qed

lemma own_set_new: "k \<notin> pname ` set own \<Longrightarrow> own_set own k v = own @ [Prop k True (Data v)]"
  by (induction own) auto

lemma setProp_object:
  "heap s a = Some (Object chain own) \<Longrightarrow>
   setProp a k v s = s\<lparr>heap := (heap s)(a \<mapsto> Object chain (own_set own k v))\<rparr>"
  by (simp add: setProp_def)

text \<open>The field names are distinct in every record of the tree.\<close>

fun distinctKeys :: "plain \<Rightarrow> bool" where
  "distinctKeys (PRec fs) = (distinct (map fst fs) \<and> list_all (\<lambda>f. distinctKeys (snd f)) fs)"
| "distinctKeys t = True"

lemma holds_distinctKeys:
  shows "holds s v t \<Longrightarrow> distinctKeys t"
    and "holdsFields s own fs \<Longrightarrow> list_all (\<lambda>f. distinctKeys (snd f)) fs"
proof (induction s v t and s own fs rule: holds_holdsFields.induct)
  case (5 s v fs)
  then show ?case
    by (auto split: jsval.splits option.splits jsobj.splits)
next
  case (7 s p ps f fs)
  then show ?case
    by (auto split: descriptor.splits)
qed simp_all

lemma alive_below: "heap_wf s \<Longrightarrow> heap s b \<noteq> None \<Longrightarrow> b < nextAddr s"
  unfolding heap_wf_def by (meson not_le)

lemma incoming_plain_fields:
  assumes IH: "\<And>f s. f \<in> set fs \<Longrightarrow> heap_wf s \<Longrightarrow>
                 \<exists>v s'. mapIncomingObjects (encode (snd f)) s = (Inr v, s') \<and> holds s' v (snd f)
                        \<and> (\<forall>b \<in> cells s' v (snd f). nextAddr s \<le> b)"
  shows "heap_wf s \<Longrightarrow> a < nextAddr s \<Longrightarrow> heap s a = Some (Object [objectPrototype] own)
         \<Longrightarrow> holdsFields s own acc \<Longrightarrow> distinct (map fst (acc @ fs))
         \<Longrightarrow> (\<forall>b \<in> cellsFields s own acc. a < b)
         \<Longrightarrow> \<exists>s' own'. assignFields a (map (\<lambda>f. (fst f, encode (snd f))) fs) s = (Inr (), s')
                \<and> heap s' a = Some (Object [objectPrototype] own')
                \<and> holdsFields s' own' (acc @ fs)
                \<and> (\<forall>b \<in> cellsFields s' own' (acc @ fs). a < b)"
  using IH
proof (induction fs arbitrary: s own acc)
  case Nil
  then show ?case by simp
next
  case (Cons f rest)
  obtain v s1 where first: "mapIncomingObjects (encode (snd f)) s = (Inr v, s1)"
    and hv: "holds s1 v (snd f)" and fresh: "\<forall>b \<in> cells s1 v (snd f). nextAddr s \<le> b"
    using Cons.prems(7) [of f s] Cons.prems(1) by auto
  have step: "incoming_step {} s s1"
    using incoming_frame(1) [of s "encode (snd f)"] first by simp
  have wf1: "heap_wf s1" and mono: "nextAddr s \<le> nextAddr s1"
    using incoming_stepD(1,2) [OF step] Cons.prems(1) by simp_all
  have cell1: "heap s1 a = Some (Object [objectPrototype] own)"
    using incoming_stepD(4) [OF step, of a] Cons.prems(2,3) by simp
  have old: "heap s1 b = heap s b" if "b \<in> cellsFields s own acc" for b
  proof -
    have "heap s b \<noteq> None" using cells_alive(2) [OF Cons.prems(4) that] .
    then have "b < nextAddr s" using alive_below [OF Cons.prems(1)] by simp
    then show ?thesis using incoming_stepD(4) [OF step, of b] by simp
  qed
  have acc1: "holdsFields s1 own acc" and cells1: "cellsFields s1 own acc = cellsFields s own acc"
    using holds_frame(2) [OF Cons.prems(4), of s1] old by simp_all
  have names: "map pname own = map fst acc"
    by (rule holdsFields_names [OF Cons.prems(4)])
  have new: "fst f \<notin> pname ` set own"
  proof -
    have "fst f \<notin> set (map fst acc)" using Cons.prems(5) by auto
    then show ?thesis using names by (metis set_map)
  qed
  let ?p = "Prop (fst f) True (Data v)"
  let ?s2 = "setProp a (fst f) v s1"
  have s2: "?s2 = s1\<lparr>heap := (heap s1)(a \<mapsto> Object [objectPrototype] (own @ [?p]))\<rparr>"
    using setProp_object [OF cell1, of "fst f" v] own_set_new [OF new, of v] by simp
  have cell2: "heap ?s2 a = Some (Object [objectPrototype] (own @ [?p]))"
    by (simp add: s2)
  have other: "heap ?s2 b = heap s1 b" if "a < b" for b
    using that by (simp add: s2)
  have wf2: "heap_wf ?s2"
    using incoming_stepD(2) [OF incoming_step_setProp [of a s1 "fst f" v]] wf1 by simp
  have bound2: "a < nextAddr ?s2"
    using Cons.prems(2) mono by (simp add: s2)
  have above_acc: "\<forall>b \<in> cellsFields s1 own acc. a < b"
    using cells1 Cons.prems(6) by simp
  have above_v: "\<forall>b \<in> cells s1 v (snd f). a < b"
    using fresh Cons.prems(2) by auto
  have acc2: "holdsFields ?s2 own acc" and cells2: "cellsFields ?s2 own acc = cellsFields s1 own acc"
    using holds_frame(2) [OF acc1, of ?s2] other above_acc by simp_all
  have hv2: "holds ?s2 v (snd f)" and cv2: "cells ?s2 v (snd f) = cells s1 v (snd f)"
    using holds_frame(1) [OF hv, of ?s2] other above_v by simp_all
  have one: "holdsFields ?s2 [?p] [f]"
    using hv2 by simp
  have both: "holdsFields ?s2 (own @ [?p]) (acc @ [f])"
    by (rule holdsFields_append [OF acc2 one])
  have len: "length own = length acc"
    using names by (metis length_map)
  have above2: "\<forall>b \<in> cellsFields ?s2 (own @ [?p]) (acc @ [f]). a < b"
  proof -
    have "cellsFields ?s2 (own @ [?p]) (acc @ [f]) = cellsFields s1 own acc \<union> cells s1 v (snd f)"
      using cellsFields_append [OF len, of ?s2 ?p f] cells2 cv2 by simp
    then show ?thesis using above_acc above_v by blast
  qed
  have d2: "distinct (map fst ((acc @ [f]) @ rest))"
    using Cons.prems(5) by simp
  have ih: "\<And>g s. g \<in> set rest \<Longrightarrow> heap_wf s \<Longrightarrow>
                 \<exists>v s'. mapIncomingObjects (encode (snd g)) s = (Inr v, s') \<and> holds s' v (snd g)
                        \<and> (\<forall>b \<in> cells s' v (snd g). nextAddr s \<le> b)"
    using Cons.prems(7) by simp
  from Cons.IH [OF wf2 bound2 cell2 both d2 above2 ih]
  obtain s' own' where "assignFields a (map (\<lambda>f. (fst f, encode (snd f))) rest) ?s2 = (Inr (), s')"
    and "heap s' a = Some (Object [objectPrototype] own')"
    and "holdsFields s' own' ((acc @ [f]) @ rest)"
    and "\<forall>b \<in> cellsFields s' own' ((acc @ [f]) @ rest). a < b"
    by blast
  then show ?case
    using first by (intro exI [of _ s'] exI [of _ own']) simp
qed

lemma plainChain_objectPrototype: "plainChain [objectPrototype]"
  by (simp add: plainChain_def getClassName_def objectPrototype_def)

lemma incoming_plain:
  "distinctKeys t \<Longrightarrow> heap_wf s \<Longrightarrow>
   \<exists>v s'. mapIncomingObjects (encode t) s = (Inr v, s') \<and> holds s' v t
          \<and> (\<forall>b \<in> cells s' v t. nextAddr s \<le> b)
          \<and> (\<forall>fs. t = PRec fs \<longrightarrow> v = VRef (nextAddr s))"
proof (induction t arbitrary: s rule: encode.induct)
  case (5 fs)
  let ?s1 = "s\<lparr>heap := (heap s)(nextAddr s \<mapsto> Object [objectPrototype] []), nextAddr := Suc (nextAddr s)\<rparr>"
  have al: "alloc (Object [objectPrototype] []) s = (nextAddr s, ?s1)"
    by (simp add: alloc_def)
  have wf1: "heap_wf ?s1"
    using incoming_stepD(2) [OF incoming_step_alloc [of s "Object [objectPrototype] []"]] "5.prems"(2) al
    by simp
  have ih: "\<And>f s. f \<in> set fs \<Longrightarrow> heap_wf s \<Longrightarrow>
                 \<exists>v s'. mapIncomingObjects (encode (snd f)) s = (Inr v, s') \<and> holds s' v (snd f)
                        \<and> (\<forall>b \<in> cells s' v (snd f). nextAddr s \<le> b)"
  proof -
    fix f s assume f: "f \<in> set fs" and wf: "heap_wf s"
    have "distinctKeys (snd f)" using "5.prems"(1) f by (simp add: list_all_iff)
    from "5.IH" [OF f this wf] show "\<exists>v s'. mapIncomingObjects (encode (snd f)) s = (Inr v, s')
          \<and> holds s' v (snd f) \<and> (\<forall>b \<in> cells s' v (snd f). nextAddr s \<le> b)"
      by blast
  qed
  have "\<exists>s' own'. assignFields (nextAddr s) (map (\<lambda>f. (fst f, encode (snd f))) fs) ?s1 = (Inr (), s')
                \<and> heap s' (nextAddr s) = Some (Object [objectPrototype] own')
                \<and> holdsFields s' own' ([] @ fs)
                \<and> (\<forall>b \<in> cellsFields s' own' ([] @ fs). nextAddr s < b)"
  proof (rule incoming_plain_fields [OF ih wf1])
    show "nextAddr s < nextAddr ?s1" by simp
    show "heap ?s1 (nextAddr s) = Some (Object [objectPrototype] [])" by simp
    show "holdsFields ?s1 [] []" by simp
    show "distinct (map fst ([] @ fs))" using "5.prems"(1) by simp
    show "\<forall>b \<in> cellsFields ?s1 [] []. nextAddr s < b" by simp
  qed
  then obtain s' own' where loop: "assignFields (nextAddr s) (map (\<lambda>f. (fst f, encode (snd f))) fs) ?s1 = (Inr (), s')"
    and cell: "heap s' (nextAddr s) = Some (Object [objectPrototype] own')"
    and hf: "holdsFields s' own' fs"
    and above: "\<forall>b \<in> cellsFields s' own' fs. nextAddr s < b"
    by auto
  have res: "mapIncomingObjects (encode (PRec fs)) s = (Inr (VRef (nextAddr s)), s')"
    using al loop by (simp add: get_field_def)
  have "holds s' (VRef (nextAddr s)) (PRec fs)"
    using cell hf "5.prems"(1) plainChain_objectPrototype by simp
  moreover have "\<forall>b \<in> cells s' (VRef (nextAddr s)) (PRec fs). nextAddr s \<le> b"
    using cell above by auto
  ultimately show ?case using res by blast
qed simp_all

text \<open>
  Claim C3. Let \<open>v\<close> be a plain record, with the fields \<open>fs\<close>. With fuel for its depth the
  outgoing marshaller returns \<open>{plainObject: m}\<close>, every field marshaled in turn, and leaves
  the state as it is. The incoming marshaller turns that wire form into a new object,
  not \<open>v\<close>, which is the same record field by field; none of the objects of the copy
  existed before, and \<open>v\<close> is still the record it was.
\<close>

theorem plain_round_trip:
  assumes "holds s v (PRec fs)" and "heap_wf s"
  shows "(\<forall>fuel. depth (PRec fs) \<le> fuel \<longrightarrow>
            mapOutgoingObjects peer fuel v s = Some (Inr (encode (PRec fs)), s))
       \<and> (\<exists>s'. mapIncomingObjects (encode (PRec fs)) s = (Inr (VRef (nextAddr s)), s')
               \<and> holds s' (VRef (nextAddr s)) (PRec fs)
               \<and> VRef (nextAddr s) \<noteq> v
               \<and> (\<forall>b \<in> cells s' (VRef (nextAddr s)) (PRec fs). heap s b = None)
               \<and> holds s' v (PRec fs))"
proof (rule conjI)
  show "\<forall>fuel. depth (PRec fs) \<le> fuel \<longrightarrow>
            mapOutgoingObjects peer fuel v s = Some (Inr (encode (PRec fs)), s)"
    using outgoing_plain(1) [OF assms(1)] by blast
next
  from incoming_plain [OF holds_distinctKeys(1) [OF assms(1)] assms(2)]
  obtain s' where res: "mapIncomingObjects (encode (PRec fs)) s = (Inr (VRef (nextAddr s)), s')"
    and copy: "holds s' (VRef (nextAddr s)) (PRec fs)"
    and above: "\<forall>b \<in> cells s' (VRef (nextAddr s)) (PRec fs). nextAddr s \<le> b"
    by blast
  have fresh: "\<forall>b \<in> cells s' (VRef (nextAddr s)) (PRec fs). heap s b = None"
    using above assms(2) by (simp add: heap_wf_def)
  obtain a where v: "v = VRef a" and alive: "heap s a \<noteq> None"
    using assms(1) by (auto split: jsval.splits option.splits)
  have distinct: "VRef (nextAddr s) \<noteq> v"
    using v alive assms(2) by (auto simp: heap_wf_def)
  have step: "incoming_step {} s s'"
    using incoming_frame(1) [of s "encode (PRec fs)"] res by simp
  have "heap s' b = heap s b" if "b \<in> cells s v (PRec fs)" for b
  proof -
    have "heap s b \<noteq> None" using cells_alive(1) [OF assms(1) that] .
    then have "b < nextAddr s" using alive_below [OF assms(2)] by simp
    then show ?thesis using incoming_stepD(4) [OF step, of b] by simp
  qed
  then have "holds s' v (PRec fs)"
    using holds_frame(1) [OF assms(1), of s'] by simp
  then show "\<exists>s'. mapIncomingObjects (encode (PRec fs)) s = (Inr (VRef (nextAddr s)), s')
               \<and> holds s' (VRef (nextAddr s)) (PRec fs)
               \<and> VRef (nextAddr s) \<noteq> v
               \<and> (\<forall>b \<in> cells s' (VRef (nextAddr s)) (PRec fs). heap s b = None)
               \<and> holds s' v (PRec fs)"
    using res copy distinct fresh by blast
qed

text \<open>The record \<open>{a: 1, b: {c: 2}}\<close> at the addresses 0 and 1.\<close>

definition nestedRecord :: plain where
  "nestedRecord = PRec [(''a'', PNum 1), (''b'', PRec [(''c'', PNum 2)])]"

definition recordState :: state where
  "recordState = emptyState\<lparr>
     heap := [0 \<mapsto> Object [objectPrototype]
                     [Prop ''a'' True (Data (VNum 1)), Prop ''b'' True (Data (VRef 1))],
              1 \<mapsto> Object [objectPrototype] [Prop ''c'' True (Data (VNum 2))]],
     nextAddr := 2\<rparr>"

lemma recordState_holds: "holds recordState (VRef 0) nestedRecord"
  by (simp add: recordState_def emptyState_def nestedRecord_def plainChain_objectPrototype)

lemma recordState_wf: "heap_wf recordState"
  by (auto simp: heap_wf_def recordState_def emptyState_def split: if_splits)

theorem plain_round_trip_witness:
  "holds recordState (VRef 0) nestedRecord \<and> heap_wf recordState
   \<and> encode nestedRecord
       = WObj [(''plainObject'', WObj [(''a'', WNum 1),
                 (''b'', WObj [(''plainObject'', WObj [(''c'', WNum 2)])])])]
   \<and> mapOutgoingObjects acceptingPeer 3 (VRef 0) recordState = Some (Inr (encode nestedRecord), recordState)
   \<and> fst (mapIncomingObjects (encode nestedRecord) recordState) = Inr (VRef 2)
   \<and> holds (snd (mapIncomingObjects (encode nestedRecord) recordState)) (VRef 2) nestedRecord
   \<and> holds (snd (mapIncomingObjects (encode nestedRecord) recordState)) (VRef 0) nestedRecord
   \<and> VRef 2 \<noteq> VRef 0"
proof -
  note t = plain_round_trip [OF recordState_holds [unfolded nestedRecord_def] recordState_wf,
      of acceptingPeer, folded nestedRecord_def]
  have n: "nextAddr recordState = 2" by (simp add: recordState_def emptyState_def)
  have d: "depth nestedRecord \<le> 3" by (simp add: nestedRecord_def)
  have out: "mapOutgoingObjects acceptingPeer 3 (VRef 0) recordState
             = Some (Inr (encode nestedRecord), recordState)"
    using t d by blast
  from t obtain s' where
    "mapIncomingObjects (encode nestedRecord) recordState = (Inr (VRef (nextAddr recordState)), s')"
    "holds s' (VRef (nextAddr recordState)) nestedRecord" "holds s' (VRef 0) nestedRecord"
    by blast
  then have "fst (mapIncomingObjects (encode nestedRecord) recordState) = Inr (VRef 2)
     \<and> holds (snd (mapIncomingObjects (encode nestedRecord) recordState)) (VRef 2) nestedRecord
     \<and> holds (snd (mapIncomingObjects (encode nestedRecord) recordState)) (VRef 0) nestedRecord"
    by (simp add: n)
  moreover have "encode nestedRecord
       = WObj [(''plainObject'', WObj [(''a'', WNum 1),
                 (''b'', WObj [(''plainObject'', WObj [(''c'', WNum 2)])])])]"
    by (simp add: nestedRecord_def)
  ultimately show ?thesis
    using recordState_holds recordState_wf out by simp
qed

end
